theory Spec2Isabelle
  imports Main "HOL-Library.Word"
begin

unbundle bit_operations_syntax

section \<open>Configuration (config.h)\<close>

type_synonym byte = "8 word"

definition win_width :: nat where
  "win_width = 600"

definition win_height :: nat where
  "win_height = 60"

definition input_max :: nat where
  "input_max = 256"

definition bg_color :: string where
  "bg_color = ''#1e1e2e''"

definition fg_color :: string where
  "fg_color = ''#cdd6f4''"

definition font_name :: string where
  "font_name = ''monospace:size=12''"

section \<open>Memory primitives\<close>

text \<open>
  The line buffer is the C array \<^verbatim>\<open>char input[input_max]\<close>, a list of bytes whose
  length never changes. An access outside the array is undefined behaviour in C; the
  model makes it the value \<open>Inl OutOfBounds\<close>, so that every theorem that gives an
  \<open>Inr\<close> result also says that the code stayed inside the array. A fatal
  \<^verbatim>\<open>errx(1, ...)\<close> of the start-up code is \<open>Inl (Errx msg)\<close>.
\<close>

datatype failure = OutOfBounds | Errx string

text \<open>
  \<^verbatim>\<open>memmove(&a[dst], &a[src], n)\<close> inside one array: the \<open>n\<close> bytes from \<open>src\<close> are
  read first and then written at \<open>dst\<close> (the regions may overlap). The size argument of
  the source is \<^verbatim>\<open>(size_t)(inlen - cursor) + 1\<close>; a negative \<open>n\<close> here stands for the
  huge unsigned size the cast gives, which leaves the array.
\<close>

definition memmove :: "byte list \<Rightarrow> int \<Rightarrow> int \<Rightarrow> int \<Rightarrow> failure + byte list" where
  "memmove a dst src n =
     (if 0 \<le> dst \<and> 0 \<le> src \<and> 0 \<le> n \<and>
         dst + n \<le> int (length a) \<and> src + n \<le> int (length a)
      then Inr (take (nat dst) a @ take (nat n) (drop (nat src) a) @ drop (nat (dst + n)) a)
      else Inl OutOfBounds)"

text \<open>\<^verbatim>\<open>memcpy(&a[dst], buf, len)\<close>, with \<open>src\<close> the first \<open>len\<close> bytes of \<^verbatim>\<open>buf\<close>.\<close>

definition memcpy :: "byte list \<Rightarrow> int \<Rightarrow> byte list \<Rightarrow> failure + byte list" where
  "memcpy a dst src =
     (if 0 \<le> dst \<and> dst + int (length src) \<le> int (length a)
      then Inr (take (nat dst) a @ src @ drop (nat dst + length src) a)
      else Inl OutOfBounds)"

text \<open>The store \<^verbatim>\<open>a[i] = v\<close>.\<close>

definition store :: "byte list \<Rightarrow> int \<Rightarrow> byte \<Rightarrow> failure + byte list" where
  "store a i v =
     (if 0 \<le> i \<and> i < int (length a) then Inr (a[nat i := v]) else Inl OutOfBounds)"

text \<open>
  The C string that starts at \<^verbatim>\<open>a[0]\<close>: the bytes before the first NUL. This is what
  \<^verbatim>\<open>printf("%s")\<close>, the test \<^verbatim>\<open>*input == '\0'\<close> and \<^verbatim>\<open>execl\<close> see of the buffer. An
  array without any NUL would be read past its end.
\<close>

definition c_str :: "byte list \<Rightarrow> failure + byte list" where
  "c_str a = (if 0 \<in> set a then Inr (takeWhile (\<lambda>b. b \<noteq> 0) a) else Inl OutOfBounds)"

section \<open>Session state and effects\<close>

text \<open>
  What the process does to the outside world, in order: bytes written to standard
  output by \<^verbatim>\<open>printf\<close>, \<^verbatim>\<open>fflush(stdout)\<close>, a warning on standard error
  (\<^verbatim>\<open>warn\<close>, \<^verbatim>\<open>warnx\<close>), a detached child that runs \<^verbatim>\<open>/bin/sh -c text\<close>
  (\<^verbatim>\<open>fork\<close>, \<^verbatim>\<open>setsid\<close>, \<^verbatim>\<open>execl\<close>), and \<^verbatim>\<open>XSetInputFocus\<close>. The drawing requests
  of \<^verbatim>\<open>draw\<close> are not recorded; the scroll offset it returns is.
\<close>

datatype effect =
    Stdout "byte list"
  | Flush
  | Warn string
  | Spawn "byte list"
  | SetInputFocus

text \<open>
  The local variables of \<^verbatim>\<open>main\<close> that the event loop reads and writes, and the
  effects so far. \<^verbatim>\<open>cursor\<close>, \<^verbatim>\<open>inlen\<close> and \<^verbatim>\<open>scroll_x\<close> are C \<^verbatim>\<open>int\<close>s, modelled by
  \<open>int\<close>: under the buffer invariant the first two stay below \<^verbatim>\<open>input_max\<close>, and the
  sums with \<^verbatim>\<open>len\<close> (at most 32) that the loop computes are far from overflow.
\<close>

record launcher =
  input :: "byte list"
  cursor :: int
  inlen :: int
  scroll_x :: int
  running :: bool
  focused :: bool
  effects :: "effect list"

text \<open>
  The collaborators the loop calls: \<open>text_xoff bs\<close> is the \<^verbatim>\<open>xOff\<close> that
  \<^verbatim>\<open>XftTextExtentsUtf8\<close> reports for the bytes \<open>bs\<close> in the loaded font, and \<open>fork_ok\<close>
  says whether \<^verbatim>\<open>fork\<close> succeeds.
\<close>

record host =
  text_xoff :: "byte list \<Rightarrow> int"
  fork_ok :: bool

section \<open>draw (launcher.c, lines 37-94)\<close>

text \<open>Lines 52-60: \<^verbatim>\<open>text_w\<close>, the width of the whole text.\<close>

definition text_w :: "host \<Rightarrow> byte list \<Rightarrow> int \<Rightarrow> int" where
  "text_w h a n = (if n > 0 then text_xoff h (take (nat n) a) else 0)"

text \<open>Lines 62-68: \<^verbatim>\<open>ext_cursor.xOff\<close>, the width up to the cursor.\<close>

definition ext_cursor_xOff :: "host \<Rightarrow> byte list \<Rightarrow> int \<Rightarrow> int" where
  "ext_cursor_xOff h a c = (if c > 0 then text_xoff h (take (nat c) a) else 0)"

text \<open>Line 70: \<^verbatim>\<open>avail_w = (int)win_width - 20\<close>.\<close>

definition avail_w :: int where
  "avail_w = int win_width - 20"

text \<open>
  Lines 72-81, on the two widths and the incoming offset. C's \<^verbatim>\<open>int\<close> is modelled by
  \<open>int\<close>: \<^verbatim>\<open>xOff\<close> is a \<^verbatim>\<open>short\<close>, and for an incoming offset that is not negative no
  difference computed here leaves the range of a 32-bit \<^verbatim>\<open>int\<close>.
\<close>

definition adjust_scroll :: "int \<Rightarrow> int \<Rightarrow> int \<Rightarrow> int" where
  "adjust_scroll xoff tw sx =
     (let sx1 = (if xoff - sx > avail_w then xoff - avail_w
                 else if xoff - sx < 0 then xoff
                 else sx);
          sx2 = (if sx1 < 0 then 0 else sx1);
          sx3 = (if sx2 > tw then tw else sx2)
      in sx3)"

text \<open>
  \<^verbatim>\<open>draw\<close> returns the new scroll offset; \<open>surface\<close> is \<^verbatim>\<open>draw != NULL\<close>.
\<close>

definition draw :: "host \<Rightarrow> bool \<Rightarrow> byte list \<Rightarrow> int \<Rightarrow> int \<Rightarrow> int \<Rightarrow> int" where
  "draw h surface a c n sx =
     (if \<not> surface then sx
      else adjust_scroll (ext_cursor_xOff h a c) (text_w h a n) sx)"

text \<open>
  The call \<^verbatim>\<open>scroll_x = draw(dpy, xftdraw, font, &xft_fg, input, cursor, inlen, scroll_x)\<close>
  of the event loop. \<^verbatim>\<open>xftdraw\<close> is not NULL there (line 198 aborts otherwise).
\<close>

definition redraw :: "host \<Rightarrow> launcher \<Rightarrow> launcher" where
  "redraw h s = s\<lparr>scroll_x := draw h True (input s) (cursor s) (inlen s) (scroll_x s)\<rparr>"

section \<open>run_command (launcher.c, lines 96-119)\<close>

text \<open>
  The argument is the C string at \<^verbatim>\<open>input\<close> (never NULL in \<^verbatim>\<open>main\<close>). The parent's
  effects: nothing for the empty string, a warning when \<^verbatim>\<open>fork\<close> fails, a detached
  child otherwise.
\<close>

definition run_command :: "host \<Rightarrow> byte list \<Rightarrow> effect list" where
  "run_command h txt =
     (if txt = [] then []
      else if \<not> fork_ok h then [Warn ''fork'']
      else [Spawn txt])"

section \<open>The event loop (launcher.c, lines 201-305)\<close>

text \<open>Key symbols and the modifier mask, with their values in the X11 headers.\<close>

definition XK_Escape :: nat where "XK_Escape = 0xff1b"
definition XK_Return :: nat where "XK_Return = 0xff0d"
definition XK_KP_Enter :: nat where "XK_KP_Enter = 0xff8d"
definition XK_BackSpace :: nat where "XK_BackSpace = 0xff08"
definition XK_Left :: nat where "XK_Left = 0xff51"
definition XK_Right :: nat where "XK_Right = 0xff53"
definition XK_Home :: nat where "XK_Home = 0xff50"
definition XK_End :: nat where "XK_End = 0xff57"
definition XK_u :: nat where "XK_u = 0x75"
definition ControlMask :: "32 word" where "ControlMask = 4"

text \<open>
  An event as the loop looks at it. \<open>ClientMessage del\<close>: \<open>del\<close> says whether
  \<^verbatim>\<open>data.l[0]\<close> is the \<^verbatim>\<open>WM_DELETE_WINDOW\<close> atom. \<open>KeyPress key state buf\<close>: \<open>key\<close> is
  \<^verbatim>\<open>XLookupKeysym(&ev.xkey, 0)\<close>, \<open>state\<close> is \<^verbatim>\<open>ev.xkey.state\<close> and \<open>buf\<close> holds the
  bytes \<^verbatim>\<open>XLookupString\<close> would store, so its return value \<^verbatim>\<open>len\<close> is \<open>length buf\<close>
  (at most 32, the size of \<^verbatim>\<open>buf\<close>). \<open>OtherEvent\<close> is any type the \<^verbatim>\<open>switch\<close> has no
  case for.
\<close>

datatype xevent =
    Expose
  | FocusOut
  | ClientMessage bool
  | KeyPress nat "32 word" "byte list"
  | OtherEvent

text \<open>Lines 232-242: Return or keypad Enter.\<close>

definition on_return :: "host \<Rightarrow> launcher \<Rightarrow> failure + launcher" where
  "on_return h s =
     (if inlen s > 0 then
        (case store (input s) (inlen s) 0 of
           Inl e \<Rightarrow> Inl e
         | Inr a \<Rightarrow>
            (case c_str a of
               Inl e \<Rightarrow> Inl e
             | Inr txt \<Rightarrow>
                 Inr (s\<lparr>input := a,
                        effects := effects s @ [Stdout (txt @ [10]), Flush] @ run_command h txt,
                        running := False\<rparr>)))
      else Inr (s\<lparr>running := False\<rparr>))"

text \<open>Lines 243-253: BackSpace.\<close>

definition on_backspace :: "host \<Rightarrow> launcher \<Rightarrow> failure + launcher" where
  "on_backspace h s =
     (if cursor s > 0 then
        (case memmove (input s) (cursor s - 1) (cursor s) (inlen s - cursor s + 1) of
           Inl e \<Rightarrow> Inl e
         | Inr a \<Rightarrow> Inr (redraw h (s\<lparr>input := a, cursor := cursor s - 1, inlen := inlen s - 1\<rparr>)))
      else Inr s)"

text \<open>Lines 254-258: Left.\<close>

definition on_left :: "host \<Rightarrow> launcher \<Rightarrow> launcher" where
  "on_left h s = redraw h (if cursor s > 0 then s\<lparr>cursor := cursor s - 1\<rparr> else s)"

text \<open>Lines 259-263: Right.\<close>

definition on_right :: "host \<Rightarrow> launcher \<Rightarrow> launcher" where
  "on_right h s = redraw h (if cursor s < inlen s then s\<lparr>cursor := cursor s + 1\<rparr> else s)"

text \<open>Lines 264-270: Home.\<close>

definition on_home :: "host \<Rightarrow> launcher \<Rightarrow> launcher" where
  "on_home h s = (if cursor s \<noteq> 0 then redraw h (s\<lparr>cursor := 0\<rparr>) else s)"

text \<open>Lines 271-277: End.\<close>

definition on_end :: "host \<Rightarrow> launcher \<Rightarrow> launcher" where
  "on_end h s = (if cursor s \<noteq> inlen s then redraw h (s\<lparr>cursor := inlen s\<rparr>) else s)"

text \<open>Lines 278-285: Ctrl-U clears the line.\<close>

definition on_ctrl_u :: "host \<Rightarrow> launcher \<Rightarrow> failure + launcher" where
  "on_ctrl_u h s =
     (case store (input s) 0 0 of
        Inl e \<Rightarrow> Inl e
      | Inr a \<Rightarrow> Inr (redraw h (s\<lparr>cursor := 0, inlen := 0, input := a, scroll_x := 0\<rparr>)))"

text \<open>Lines 286-302: any other key; \<open>buf\<close> is what \<^verbatim>\<open>XLookupString\<close> produced.\<close>

definition on_text :: "host \<Rightarrow> byte list \<Rightarrow> launcher \<Rightarrow> failure + launcher" where
  "on_text h buf s =
     (let len = int (length buf) in
      if len > 0 \<and> inlen s + len < int input_max - 1 then
        (case memmove (input s) (cursor s + len) (cursor s) (inlen s - cursor s + 1) of
           Inl e \<Rightarrow> Inl e
         | Inr a1 \<Rightarrow>
            (case memcpy a1 (cursor s) buf of
               Inl e \<Rightarrow> Inl e
             | Inr a2 \<Rightarrow>
                 Inr (redraw h (s\<lparr>input := a2, cursor := cursor s + len, inlen := inlen s + len\<rparr>))))
      else Inr s)"

text \<open>Lines 227-303: the \<^verbatim>\<open>if\<close> chain of the \<^verbatim>\<open>KeyPress\<close> case, in the source's order.\<close>

definition key_press :: "host \<Rightarrow> nat \<Rightarrow> 32 word \<Rightarrow> byte list \<Rightarrow> launcher \<Rightarrow> failure + launcher" where
  "key_press h key state buf s =
     (if key = XK_Escape then Inr (s\<lparr>running := False\<rparr>)
      else if key = XK_Return \<or> key = XK_KP_Enter then on_return h s
      else if key = XK_BackSpace then on_backspace h s
      else if key = XK_Left then Inr (on_left h s)
      else if key = XK_Right then Inr (on_right h s)
      else if key = XK_Home then Inr (on_home h s)
      else if key = XK_End then Inr (on_end h s)
      else if state AND ControlMask \<noteq> 0 \<and> key = XK_u then on_ctrl_u h s
      else on_text h buf s)"

text \<open>Lines 210-304: the \<^verbatim>\<open>switch\<close> on the event type, one pass of the loop body.\<close>

fun handle_event :: "host \<Rightarrow> xevent \<Rightarrow> launcher \<Rightarrow> failure + launcher" where
  "handle_event h Expose s =
     (let s1 = (if \<not> focused s
                then s\<lparr>effects := effects s @ [SetInputFocus], focused := True\<rparr>
                else s)
      in Inr (redraw h s1))"
| "handle_event h FocusOut s = Inr s"
| "handle_event h (ClientMessage del) s = Inr (if del then s\<lparr>running := False\<rparr> else s)"
| "handle_event h (KeyPress key state buf) s = key_press h key state buf s"
| "handle_event h OtherEvent s = Inr s"

text \<open>
  Line 208, \<^verbatim>\<open>while (running)\<close>, over the events the host delivers: the loop stops at
  the first state that is not running, and waits in \<^verbatim>\<open>XNextEvent\<close> when the events
  are used up.
\<close>

fun main_loop :: "host \<Rightarrow> launcher \<Rightarrow> xevent list \<Rightarrow> failure + launcher" where
  "main_loop h s [] = Inr s"
| "main_loop h s (ev # evs) =
     (if running s then
        (case handle_event h ev s of
           Inl e \<Rightarrow> Inl e
         | Inr s' \<Rightarrow> main_loop h s' evs)
      else Inr s)"

section \<open>Session start (launcher.c, lines 19-35 and 142-206)\<close>

text \<open>
  What the X server and the libraries answer at start-up. \<open>open_display\<close>:
  \<^verbatim>\<open>XOpenDisplay\<close> gives a display. \<open>pledge_fails\<close>: the program is built for OpenBSD and
  \<^verbatim>\<open>pledge\<close> returns -1. \<open>x_parse_color\<close> and \<open>x_alloc_color\<close>: \<^verbatim>\<open>XParseColor\<close> and
  \<^verbatim>\<open>XAllocColor\<close>, \<open>None\<close> for the status 0; the allocated colour is given by its pixel.
  \<open>black_pixel\<close>: \<^verbatim>\<open>BlackPixel(dpy, screen)\<close>. \<open>font_open\<close>, \<open>xft_color_alloc\<close>,
  \<open>xft_draw_create\<close>: \<^verbatim>\<open>XftFontOpenName\<close>, \<^verbatim>\<open>XftColorAllocName\<close> and \<^verbatim>\<open>XftDrawCreate\<close>
  succeed. \<open>stack\<close>: the bytes that happen to be in the uninitialised array \<^verbatim>\<open>input\<close>.
\<close>

record xcolor =
  red :: "16 word"
  green :: "16 word"
  blue :: "16 word"

record xserver =
  open_display :: bool
  pledge_fails :: bool
  x_parse_color :: "string \<Rightarrow> xcolor option"
  x_alloc_color :: "xcolor \<Rightarrow> nat option"
  black_pixel :: nat
  font_open :: "string \<Rightarrow> bool"
  xft_color_alloc :: "string \<Rightarrow> bool"
  xft_draw_create :: bool
  stack :: "nat \<Rightarrow> byte"

text \<open>\<^verbatim>\<open>parse_color\<close>: the warnings it prints and the pixel it returns.\<close>

definition parse_color :: "xserver \<Rightarrow> string \<Rightarrow> effect list \<times> nat" where
  "parse_color x color =
     (case x_parse_color x color of
        None \<Rightarrow> ([Warn (''invalid color: '' @ color)], black_pixel x)
      | Some xc \<Rightarrow>
         (case x_alloc_color x xc of
            None \<Rightarrow> ([Warn (''cannot allocate color: '' @ color)], black_pixel x)
          | Some pixel \<Rightarrow> ([], pixel)))"

text \<open>Lines 201-206: the variables of the loop before its first pass.\<close>

definition init_launcher :: "(nat \<Rightarrow> byte) \<Rightarrow> effect list \<Rightarrow> launcher" where
  "init_launcher mem effs =
     \<lparr>input = (map mem [0..<input_max])[0 := 0], cursor = 0, inlen = 0, scroll_x = 0,
      running = True, focused = False, effects = effs\<rparr>"

text \<open>
  \<^verbatim>\<open>main\<close> up to the loop: either the message of the \<^verbatim>\<open>errx\<close> that ends the process
  (the warnings printed before it are not kept), or the window's background and border
  pixels and the first state of the loop, whose effects are the warnings printed so far.
\<close>

definition startup :: "xserver \<Rightarrow> failure + (nat \<times> nat \<times> launcher)" where
  "startup x =
     (if \<not> open_display x then Inl (Errx ''cannot open display'')
      else if pledge_fails x then Inl (Errx ''pledge'')
      else
        (let (w1, bg) = parse_color x bg_color;
             (w2, border) = parse_color x fg_color
         in if \<not> font_open x font_name then Inl (Errx (''cannot load font: '' @ font_name))
            else if \<not> xft_color_alloc x fg_color
              then Inl (Errx (''cannot allocate xft color: '' @ fg_color))
            else if \<not> xft_draw_create x then Inl (Errx ''cannot create XftDraw'')
            else Inr (bg, border, init_launcher (stack x) (w1 @ w2))))"

text \<open>\<^verbatim>\<open>main\<close>: start-up, then the loop over the delivered events.\<close>

definition main :: "xserver \<Rightarrow> host \<Rightarrow> xevent list \<Rightarrow> failure + launcher" where
  "main x h evs =
     (case startup x of
        Inl e \<Rightarrow> Inl e
      | Inr (bg, border, s0) \<Rightarrow> main_loop h s0 evs)"

section \<open>Notions of the specification\<close>

text \<open>The text of the line buffer: the first \<^verbatim>\<open>inlen\<close> bytes of the array.\<close>

definition content :: "launcher \<Rightarrow> byte list" where
  "content s = take (nat (inlen s)) (input s)"

text \<open>
  The buffer invariant: the array has its declared size, \<open>0 \<le> cursor \<le> length < capacity\<close>,
  and the byte at index \<open>length\<close> is the terminator.
\<close>

definition buf_inv :: "launcher \<Rightarrow> bool" where
  "buf_inv s \<longleftrightarrow>
     length (input s) = input_max \<and> 0 \<le> cursor s \<and> cursor s \<le> inlen s \<and>
     inlen s < int input_max \<and> input s ! nat (inlen s) = 0"

text \<open>
  The scroll policy in the specification's words, to be compared with \<open>draw\<close>: step 1,
  else step 2, then the clamp to \<open>[0, totalExtent]\<close>.
\<close>

definition clamp :: "int \<Rightarrow> int \<Rightarrow> int \<Rightarrow> int" where
  "clamp lo hi v = max lo (min hi v)"

definition spec_recompute :: "int \<Rightarrow> int \<Rightarrow> int \<Rightarrow> int \<Rightarrow> int" where
  "spec_recompute scrollOffset cursorExtent totalExtent availableWidth =
     clamp 0 totalExtent
       (if cursorExtent - scrollOffset > availableWidth then cursorExtent - availableWidth
        else if cursorExtent - scrollOffset < 0 then cursorExtent
        else scrollOffset)"

text \<open>The horizontal padding of the text, \<^verbatim>\<open>x = 10\<close> at line 49, left and right.\<close>

definition padding :: int where
  "padding = 10"

text \<open>
  What is looked at when a session has come to rest: the text, its length, the effects
  in their order, and whether the loop is still running.
\<close>

definition session_view :: "failure + launcher \<Rightarrow> failure + (byte list \<times> int \<times> effect list \<times> bool)" where
  "session_view r = map_sum id (\<lambda>s. (content s, inlen s, effects s, running s)) r"

text \<open>
  The effects that only a confirmation has: the printed line, the flush, and what
  \<open>run_command\<close> does (the child, or the warning about \<^verbatim>\<open>fork\<close>).
\<close>

fun is_output :: "effect \<Rightarrow> bool" where
  "is_output (Stdout _) = True"
| "is_output Flush = True"
| "is_output (Spawn _) = True"
| "is_output (Warn msg) = (msg = ''fork'')"
| "is_output SetInputFocus = False"

section \<open>Example hosts and states\<close>

text \<open>A font in which every byte is 10 pixels wide, on a host where \<^verbatim>\<open>fork\<close> succeeds.\<close>

definition fixed_font :: host where
  "fixed_font = \<lparr>text_xoff = (\<lambda>bs. 10 * int (length bs)), fork_ok = True\<rparr>"

text \<open>
  A running session whose buffer holds \<open>txt\<close>, with the terminator after it and
  arbitrary bytes (here 42) in the rest of the array.
\<close>

definition line_state :: "byte list \<Rightarrow> int \<Rightarrow> int \<Rightarrow> launcher" where
  "line_state txt c sx =
     \<lparr>input = txt @ 0 # replicate (input_max - Suc (length txt)) 42,
      cursor = c, inlen = int (length txt), scroll_x = sx,
      running = True, focused = True, effects = []\<rparr>"

text \<open>An X server on which every start-up request succeeds.\<close>

definition good_server :: xserver where
  "good_server =
     \<lparr>open_display = True, pledge_fails = False,
      x_parse_color = (\<lambda>c. Some \<lparr>red = 0x1e1e, green = 0x1e1e, blue = 0x2e2e\<rparr>),
      x_alloc_color = (\<lambda>xc. Some 7),
      black_pixel = 0,
      font_open = (\<lambda>f. True),
      xft_color_alloc = (\<lambda>c. True),
      xft_draw_create = True,
      stack = (\<lambda>i. 1)\<rparr>"

text \<open>
  A server like \<open>good_server\<close> on which \<^verbatim>\<open>XftColorAllocName\<close> cannot allocate any
  colour, and one on which \<^verbatim>\<open>XParseColor\<close> rejects every colour name.
\<close>

definition no_xft_color_server :: xserver where
  "no_xft_color_server = good_server\<lparr>xft_color_alloc := (\<lambda>c. False)\<rparr>"

definition no_color_server :: xserver where
  "no_color_server = good_server\<lparr>x_parse_color := (\<lambda>c. None)\<rparr>"

section \<open>Staying inside the array\<close>

lemma memmove_in_range:
  assumes "dst + k \<le> length a" and "src + k \<le> length a"
  shows "memmove a (int dst) (int src) (int k) =
           Inr (take dst a @ take k (drop src a) @ drop (dst + k) a)"
  using assms by (simp add: memmove_def nat_add_distrib flip: of_nat_add)

lemma memcpy_in_range:
  assumes "dst + length src \<le> length a"
  shows "memcpy a (int dst) src = Inr (take dst a @ src @ drop (dst + length src) a)"
  using assms by (simp add: memcpy_def flip: of_nat_add)

lemma buf_inv_nat:
  assumes "buf_inv s"
  obtains c n where "cursor s = int c" and "inlen s = int n" and "c \<le> n" and "n < input_max"
    and "length (input s) = input_max" and "input s ! n = 0"
proof -
  from assms have "cursor s = int (nat (cursor s))" "inlen s = int (nat (inlen s))"
    "nat (cursor s) \<le> nat (inlen s)" "nat (inlen s) < input_max"
    "length (input s) = input_max" "input s ! nat (inlen s) = 0"
    by (auto simp: buf_inv_def)
  then show thesis by (rule that)
qed

text \<open>The array after an insertion of \<open>buf\<close> at \<open>c\<close> into a text of length \<open>n\<close>.\<close>

lemma insert_array:
  assumes "c \<le> n" and "n + length buf < length a"
  shows "\<exists>a1. memmove a (int c + int (length buf)) (int c) (int n - int c + 1) = Inr a1 \<and>
           memcpy a1 (int c) buf =
             Inr (take c a @ buf @ take (n - c + 1) (drop c a) @ drop (n + length buf + 1) a)"
proof -
  let ?l = "length buf"
  let ?a1 = "take (c + ?l) a @ take (n - c + 1) (drop c a) @ drop (c + ?l + (n - c + 1)) a"
  have k: "int n - int c + 1 = int (n - c + 1)"
    using assms by simp
  have "memmove a (int (c + ?l)) (int c) (int (n - c + 1)) = Inr ?a1"
    using assms by (intro memmove_in_range) simp_all
  then have mm: "memmove a (int c + int ?l) (int c) (int n - int c + 1) = Inr ?a1"
    by (simp add: k)
  have len1: "length ?a1 = length a"
    using assms by simp
  have "memcpy ?a1 (int c) buf = Inr (take c ?a1 @ buf @ drop (c + ?l) ?a1)"
    using assms len1 by (intro memcpy_in_range) simp
  moreover have "take c ?a1 = take c a"
    using assms by (simp add: min_def)
  moreover have "drop (c + ?l) ?a1 = take (n - c + 1) (drop c a) @ drop (n + ?l + 1) a"
    using assms by (simp add: min_def add.commute add.left_commute)
  ultimately show ?thesis using mm by simp
qed

lemma inserted_array_props:
  assumes "c \<le> n" and "n + length buf < length a" and "a ! n = 0"
  defines "a' \<equiv> take c a @ buf @ take (n - c + 1) (drop c a) @ drop (n + length buf + 1) a"
  shows "length a' = length a"
    and "take (n + length buf) a' = take c (take n a) @ buf @ drop c (take n a)"
    and "a' ! (n + length buf) = 0"
proof -
  show "length a' = length a"
    using assms(1,2) by (simp add: a'_def)
  show "take (n + length buf) a' = take c (take n a) @ buf @ drop c (take n a)"
  proof -
    have "take (n + length buf) a' = take c a @ buf @ take (n - c) (drop c a)"
      using assms(1,2) by (simp add: a'_def)
    moreover have "take c (take n a) = take c a"
      using assms(1) by (simp add: min_def)
    moreover have "drop c (take n a) = take (n - c) (drop c a)"
      by (simp add: drop_take)
    ultimately show ?thesis by simp
  qed
  let ?tail = "take (n - c + 1) (drop c a) @ drop (n + length buf + 1) a"
  have idx: "n + length buf = length (take c a) + (length buf + (n - c))"
    using assms(1,2) by simp
  have "a' ! (n + length buf) = (buf @ ?tail) ! (length buf + (n - c))"
    unfolding a'_def idx by (rule nth_append_length_plus)
  also have "\<dots> = ?tail ! (n - c)"
    by (rule nth_append_length_plus)
  also have "\<dots> = take (n - c + 1) (drop c a) ! (n - c)"
    using assms(1,2) by (simp add: nth_append)
  also have "\<dots> = a ! n"
    using assms(1,2) by simp
  finally show "a' ! (n + length buf) = 0"
    using assms(3) by simp
qed

lemma on_text_inserts:
  assumes "buf_inv s" and "buf \<noteq> []" and "inlen s + int (length buf) < int input_max - 1"
  shows "on_text h buf s =
           Inr (redraw h (s\<lparr>input :=
                  take (nat (cursor s)) (input s) @ buf @
                  take (nat (inlen s) - nat (cursor s) + 1) (drop (nat (cursor s)) (input s)) @
                  drop (nat (inlen s) + length buf + 1) (input s),
                cursor := cursor s + int (length buf),
                inlen := inlen s + int (length buf)\<rparr>))"
proof -
  from assms(1) obtain c n where cn: "cursor s = int c" "inlen s = int n" "c \<le> n"
    "n < input_max" "length (input s) = input_max" "input s ! n = 0"
    by (rule buf_inv_nat)
  have fits: "n + length buf < length (input s)"
    using assms(3) cn by simp
  from insert_array [OF cn(3) fits] obtain a1 where
    a1: "memmove (input s) (int c + int (length buf)) (int c) (int n - int c + 1) = Inr a1"
      "memcpy a1 (int c) buf =
         Inr (take c (input s) @ buf @ take (n - c + 1) (drop c (input s)) @
              drop (n + length buf + 1) (input s))"
    by blast
  show ?thesis
    using assms(2,3) a1 by (simp add: on_text_def cn Let_def)
qed

lemma on_text_rejects:
  assumes "int input_max - 1 \<le> inlen s + int (length buf)"
  shows "on_text h buf s = Inr s"
  using assms by (simp add: on_text_def Let_def)

text \<open>The array after the byte before \<open>c\<close> is deleted from a text of length \<open>n\<close>.\<close>

lemma deleted_array_props:
  assumes "0 < c" and "c \<le> n" and "n < length a" and "a ! n = 0"
  defines "a' \<equiv> take (c - 1) a @ take (n - c + 1) (drop c a) @ drop n a"
  shows "length a' = length a"
    and "take (n - 1) a' = take (c - 1) (take n a) @ drop c (take n a)"
    and "a' ! (n - 1) = 0"
proof -
  show "length a' = length a"
    using assms(1-3) by (simp add: a'_def)
  show "take (n - 1) a' = take (c - 1) (take n a) @ drop c (take n a)"
  proof -
    have "take (n - 1) a' = take (c - 1) a @ take (n - c) (drop c a)"
      using assms(1-3) by (simp add: a'_def)
    moreover have "min (c - 1) n = c - 1"
      using assms(2) by arith
    then have "take (c - 1) (take n a) = take (c - 1) a"
      by simp
    moreover have "drop c (take n a) = take (n - c) (drop c a)"
      by (simp add: drop_take)
    ultimately show ?thesis by simp
  qed
  let ?tail = "take (n - c + 1) (drop c a) @ drop n a"
  have idx: "n - 1 = length (take (c - 1) a) + (n - c)"
    using assms(1-3) by simp
  have "a' ! (n - 1) = ?tail ! (n - c)"
    unfolding a'_def idx by (rule nth_append_length_plus)
  also have "\<dots> = take (n - c + 1) (drop c a) ! (n - c)"
    using assms(1-3) by (simp add: nth_append)
  also have "\<dots> = a ! n"
    using assms(1-3) by simp
  finally show "a' ! (n - 1) = 0"
    using assms(4) by simp
qed

lemma on_backspace_deletes:
  assumes "buf_inv s" and "0 < cursor s"
  shows "on_backspace h s =
           Inr (redraw h (s\<lparr>input :=
                  take (nat (cursor s) - 1) (input s) @
                  take (nat (inlen s) - nat (cursor s) + 1) (drop (nat (cursor s)) (input s)) @
                  drop (nat (inlen s)) (input s),
                cursor := cursor s - 1,
                inlen := inlen s - 1\<rparr>))"
proof -
  from assms(1) obtain c n where cn: "cursor s = int c" "inlen s = int n" "c \<le> n"
    "n < input_max" "length (input s) = input_max" "input s ! n = 0"
    by (rule buf_inv_nat)
  have pos: "0 < c"
    using assms(2) cn by simp
  have "memmove (input s) (int (c - 1)) (int c) (int (n - c + 1)) =
          Inr (take (c - 1) (input s) @ take (n - c + 1) (drop c (input s)) @
               drop (c - 1 + (n - c + 1)) (input s))"
    using cn pos by (intro memmove_in_range) simp_all
  moreover have "c - 1 + (n - c + 1) = n"
    using cn(3) pos by simp
  moreover have "int (c - 1) = int c - 1" "int (n - c + 1) = int n - int c + 1"
    using cn(3) pos by simp_all
  ultimately have "memmove (input s) (int c - 1) (int c) (int n - int c + 1) =
          Inr (take (c - 1) (input s) @ take (n - c + 1) (drop c (input s)) @ drop n (input s))"
    by metis
  then show ?thesis
    using pos by (simp add: on_backspace_def cn)
qed

lemma on_backspace_at_start:
  assumes "cursor s = 0"
  shows "on_backspace h s = Inr s"
  using assms by (simp add: on_backspace_def)

section \<open>Preservation of the buffer invariant\<close>

lemma buf_inv_redraw: "buf_inv (redraw h s) \<longleftrightarrow> buf_inv s"
  by (simp add: buf_inv_def redraw_def)

lemma content_redraw: "content (redraw h s) = content s"
  by (simp add: content_def redraw_def)

lemma on_text_inv:
  assumes "buf_inv s"
  shows "\<exists>s'. on_text h buf s = Inr s' \<and> buf_inv s'"
proof (cases "buf \<noteq> [] \<and> inlen s + int (length buf) < int input_max - 1")
  case False
  then have "on_text h buf s = Inr s"
    by (auto simp: on_text_def Let_def)
  with assms show ?thesis by simp
next
  case True
  from assms obtain c n where cn: "cursor s = int c" "inlen s = int n" "c \<le> n"
    "n < input_max" "length (input s) = input_max" "input s ! n = 0"
    by (rule buf_inv_nat)
  have fits: "n + length buf < length (input s)"
    using True cn by simp
  let ?a = "take c (input s) @ buf @ take (n - c + 1) (drop c (input s)) @
            drop (n + length buf + 1) (input s)"
  have res: "on_text h buf s =
          Inr (redraw h (s\<lparr>input := ?a, cursor := cursor s + int (length buf),
                           inlen := inlen s + int (length buf)\<rparr>))"
    using on_text_inserts [OF assms, of buf h] True by (simp add: cn)
  have "length ?a = input_max" and "?a ! (n + length buf) = 0"
    using inserted_array_props(1,3) [OF cn(3) fits cn(6)] cn(5) by simp_all
  then have "buf_inv (s\<lparr>input := ?a, cursor := cursor s + int (length buf),
                         inlen := inlen s + int (length buf)\<rparr>)"
    using cn fits by (simp add: buf_inv_def nat_add_distrib)
  with res show ?thesis
    by (simp add: buf_inv_redraw)
qed

lemma on_backspace_inv:
  assumes "buf_inv s"
  shows "\<exists>s'. on_backspace h s = Inr s' \<and> buf_inv s'"
proof (cases "0 < cursor s")
  case False
  then have "on_backspace h s = Inr s"
    by (simp add: on_backspace_def)
  with assms show ?thesis by simp
next
  case True
  from assms obtain c n where cn: "cursor s = int c" "inlen s = int n" "c \<le> n"
    "n < input_max" "length (input s) = input_max" "input s ! n = 0"
    by (rule buf_inv_nat)
  have pos: "0 < c" and lt: "n < length (input s)"
    using True cn by simp_all
  let ?a = "take (c - 1) (input s) @ take (n - c + 1) (drop c (input s)) @ drop n (input s)"
  have res: "on_backspace h s =
          Inr (redraw h (s\<lparr>input := ?a, cursor := cursor s - 1, inlen := inlen s - 1\<rparr>))"
    using on_backspace_deletes [OF assms True, of h] by (simp add: cn)
  have "length ?a = input_max" and "?a ! (n - 1) = 0"
    using deleted_array_props(1,3) [OF pos cn(3) lt cn(6)] cn(5) by simp_all
  moreover have "nat (int n - 1) = n - 1"
    by simp
  ultimately have "buf_inv (s\<lparr>input := ?a, cursor := cursor s - 1, inlen := inlen s - 1\<rparr>)"
    using cn pos by (simp add: buf_inv_def)
  with res show ?thesis
    by (simp add: buf_inv_redraw)
qed

lemma on_return_inv:
  assumes "buf_inv s"
  shows "\<exists>s'. on_return h s = Inr s' \<and> buf_inv s'"
proof (cases "0 < inlen s")
  case False
  with assms show ?thesis
    by (simp add: on_return_def buf_inv_def)
next
  case True
  have lt: "nat (inlen s) < length (input s)"
    using assms True by (auto simp: buf_inv_def)
  have st: "store (input s) (inlen s) 0 = Inr ((input s)[nat (inlen s) := 0])"
    using assms True by (simp add: store_def buf_inv_def)
  have "0 \<in> set ((input s)[nat (inlen s) := 0])"
    using lt by (rule set_update_memI)
  then have "c_str ((input s)[nat (inlen s) := 0]) =
               Inr (takeWhile (\<lambda>b. b \<noteq> 0) ((input s)[nat (inlen s) := 0]))"
    by (simp add: c_str_def)
  with st True assms lt show ?thesis
    by (simp add: on_return_def buf_inv_def)
qed

lemma on_ctrl_u_inv:
  assumes "length (input s) = input_max"
  shows "\<exists>s'. on_ctrl_u h s = Inr s' \<and> buf_inv s'"
  using assms
  by (simp add: on_ctrl_u_def store_def buf_inv_redraw) (simp add: buf_inv_def input_max_def)

lemma on_left_inv: "buf_inv s \<Longrightarrow> buf_inv (on_left h s)"
  by (simp add: on_left_def buf_inv_redraw) (simp add: buf_inv_def)

lemma on_right_inv: "buf_inv s \<Longrightarrow> buf_inv (on_right h s)"
  by (simp add: on_right_def buf_inv_redraw) (simp add: buf_inv_def)

lemma on_home_inv: "buf_inv s \<Longrightarrow> buf_inv (on_home h s)"
  by (simp add: on_home_def buf_inv_redraw) (simp add: buf_inv_def)

lemma on_end_inv: "buf_inv s \<Longrightarrow> buf_inv (on_end h s)"
  by (simp add: on_end_def buf_inv_redraw) (simp add: buf_inv_def)

lemma key_press_inv:
  assumes "buf_inv s"
  shows "\<exists>s'. key_press h key state buf s = Inr s' \<and> buf_inv s'"
proof -
  have esc: "buf_inv (s\<lparr>running := False\<rparr>)"
    using assms by (simp add: buf_inv_def)
  have len: "length (input s) = input_max"
    using assms by (simp add: buf_inv_def)
  show ?thesis
    unfolding key_press_def
    using esc on_return_inv [OF assms] on_backspace_inv [OF assms] on_ctrl_u_inv [OF len]
      on_text_inv [OF assms] on_left_inv [OF assms] on_right_inv [OF assms]
      on_home_inv [OF assms] on_end_inv [OF assms]
    by simp
qed

lemma handle_event_inv:
  assumes "buf_inv s"
  shows "\<exists>s'. handle_event h ev s = Inr s' \<and> buf_inv s'"
proof (cases ev)
  case Expose
  have "buf_inv (s\<lparr>effects := effects s @ [SetInputFocus], focused := True\<rparr>)"
    using assms by (simp add: buf_inv_def)
  with assms Expose show ?thesis
    by (simp add: buf_inv_redraw Let_def)
next
  case (ClientMessage del)
  have "buf_inv (s\<lparr>running := False\<rparr>)"
    using assms by (simp add: buf_inv_def)
  with assms ClientMessage show ?thesis by simp
next
  case (KeyPress key state buf)
  with key_press_inv [OF assms] show ?thesis by simp
qed (use assms in simp_all)

lemma main_loop_inv:
  assumes "buf_inv s"
  shows "\<exists>s'. main_loop h s evs = Inr s' \<and> buf_inv s'"
  using assms
proof (induction evs arbitrary: s)
  case Nil
  then show ?case by simp
next
  case (Cons ev evs)
  show ?case
  proof (cases "running s")
    case False
    with Cons.prems show ?thesis by simp
  next
    case True
    from handle_event_inv [OF Cons.prems] obtain s1 where
      s1: "handle_event h ev s = Inr s1" "buf_inv s1"
      by blast
    from Cons.IH [OF s1(2)] True s1(1) show ?thesis by simp
  qed
qed

lemma init_launcher_inv: "buf_inv (init_launcher mem effs)"
  by (simp add: init_launcher_def buf_inv_def input_max_def)

section \<open>What the buffer operations do to the text\<close>

lemma content_length:
  assumes "buf_inv s"
  shows "length (content s) = nat (inlen s)"
  using assms by (auto simp: content_def buf_inv_def)

lemma on_text_accepts:
  assumes "buf_inv s" and "buf \<noteq> []" and "inlen s + int (length buf) < int input_max - 1"
  shows "\<exists>s'. on_text h buf s = Inr s' \<and>
           content s' =
             take (nat (cursor s)) (content s) @ buf @ drop (nat (cursor s)) (content s) \<and>
           cursor s' = cursor s + int (length buf) \<and>
           inlen s' = inlen s + int (length buf) \<and>
           input s' ! nat (inlen s') = 0 \<and>
           buf_inv s' \<and>
           scroll_x s' = draw h True (input s') (cursor s') (inlen s') (scroll_x s) \<and>
           running s' = running s \<and> focused s' = focused s \<and> effects s' = effects s"
proof -
  from assms(1) obtain c n where cn: "cursor s = int c" "inlen s = int n" "c \<le> n"
    "n < input_max" "length (input s) = input_max" "input s ! n = 0"
    by (rule buf_inv_nat)
  have room: "n + length buf < length (input s)"
    using assms(3) cn by simp
  let ?a = "take c (input s) @ buf @ take (n - c + 1) (drop c (input s)) @
            drop (n + length buf + 1) (input s)"
  let ?s' = "redraw h (s\<lparr>input := ?a, cursor := cursor s + int (length buf),
                           inlen := inlen s + int (length buf)\<rparr>)"
  have res: "on_text h buf s = Inr ?s'"
    using on_text_inserts [OF assms, of h] by (simp add: cn)
  have nat_len: "nat (inlen s + int (length buf)) = n + length buf"
    by (simp add: cn nat_add_distrib)
  have "content ?s' = take (n + length buf) ?a"
    by (simp add: content_def redraw_def nat_len)
  also have "\<dots> = take c (take n (input s)) @ buf @ drop c (take n (input s))"
    by (rule inserted_array_props(2) [OF cn(3) room cn(6)])
  finally have new_text: "content ?s' =
      take (nat (cursor s)) (content s) @ buf @ drop (nat (cursor s)) (content s)"
    by (simp add: content_def cn)
  have nul: "input ?s' ! nat (inlen ?s') = 0"
    using inserted_array_props(3) [OF cn(3) room cn(6)] by (simp add: redraw_def nat_len)
  from on_text_inv [OF assms(1), of h buf] res have inv: "buf_inv ?s'"
    by simp
  have rest: "cursor ?s' = cursor s + int (length buf)" "inlen ?s' = inlen s + int (length buf)"
    "scroll_x ?s' = draw h True (input ?s') (cursor ?s') (inlen ?s') (scroll_x s)"
    "running ?s' = running s" "focused ?s' = focused s" "effects ?s' = effects s"
    by (simp_all add: redraw_def)
  show ?thesis
    using res new_text nul inv rest by blast
qed

lemma takeWhile_up_to_nul:
  "takeWhile (\<lambda>b. b \<noteq> (0 :: byte)) (xs @ 0 # ys) = takeWhile (\<lambda>b. b \<noteq> 0) xs"
  by (induction xs) simp_all

text \<open>
  Return with a non-empty buffer, in general: the line printed and the text handed to
  \<open>run_command\<close> are the text of the buffer up to its first NUL byte.
\<close>

lemma on_return_nonempty:
  assumes "buf_inv s" and "0 < inlen s"
  shows "on_return h s =
           Inr (s\<lparr>effects := effects s @
                    [Stdout (takeWhile (\<lambda>b. b \<noteq> 0) (content s) @ [10]), Flush] @
                    run_command h (takeWhile (\<lambda>b. b \<noteq> 0) (content s)),
                  running := False\<rparr>)"
proof -
  from assms(1) obtain c n where cn: "cursor s = int c" "inlen s = int n" "c \<le> n"
    "n < input_max" "length (input s) = input_max" "input s ! n = 0"
    by (rule buf_inv_nat)
  have lt: "n < length (input s)"
    using cn by simp
  have same: "(input s)[n := 0] = input s"
    using cn(6) by (metis list_update_id)
  have st: "store (input s) (inlen s) 0 = Inr (input s)"
    using lt same by (simp add: store_def cn)
  have split: "input s = take n (input s) @ 0 # drop (Suc n) (input s)"
    using lt cn(6) by (metis id_take_nth_drop)
  have "0 \<in> set (input s)"
    using lt cn(6) by (metis nth_mem)
  moreover have "takeWhile (\<lambda>b. b \<noteq> 0) (input s) = takeWhile (\<lambda>b. b \<noteq> 0) (take n (input s))"
    using takeWhile_up_to_nul [of "take n (input s)" "drop (Suc n) (input s)"] split by simp
  ultimately have "c_str (input s) = Inr (takeWhile (\<lambda>b. b \<noteq> 0) (content s))"
    by (simp add: c_str_def content_def cn)
  with st assms(2) show ?thesis
    by (simp add: on_return_def)
qed

lemma on_return_empty:
  assumes "inlen s = 0"
  shows "on_return h s = Inr (s\<lparr>running := False\<rparr>)"
  using assms by (simp add: on_return_def)

section \<open>How the loop reaches the buffer operations\<close>

lemma key_press_return:
  assumes "key = XK_Return \<or> key = XK_KP_Enter"
  shows "handle_event h (KeyPress key st buf) s = on_return h s"
  using assms
  by (auto simp: key_press_def XK_Return_def XK_KP_Enter_def XK_Escape_def)

lemma key_press_backspace:
  "key_press h XK_BackSpace st buf s = on_backspace h s"
  by (simp add: key_press_def XK_BackSpace_def XK_Escape_def XK_Return_def XK_KP_Enter_def)

lemma key_press_other:
  assumes "key \<notin> {XK_Escape, XK_Return, XK_KP_Enter, XK_BackSpace, XK_Left, XK_Right,
                   XK_Home, XK_End}"
    and "\<not> (st AND ControlMask \<noteq> 0 \<and> key = XK_u)"
  shows "key_press h key st buf s = on_text h buf s"
  using assms by (auto simp: key_press_def)

lemma key_press_letter_a:
  "key_press h 97 0 buf s = on_text h buf s"
  by (rule key_press_other)
     (simp_all add: XK_Escape_def XK_Return_def XK_KP_Enter_def XK_BackSpace_def
        XK_Left_def XK_Right_def XK_Home_def XK_End_def)

lemma main_loop_stopped:
  assumes "\<not> running s"
  shows "main_loop h s evs = Inr s"
  using assms by (cases evs) simp_all

lemma main_loop_append:
  "main_loop h s (evs @ rest) =
     (case main_loop h s evs of Inl e \<Rightarrow> Inl e | Inr s' \<Rightarrow> main_loop h s' rest)"
proof (induction evs arbitrary: s)
  case Nil
  show ?case by simp
next
  case (Cons ev evs)
  show ?case
  proof (cases "running s")
    case True
    with Cons.IH show ?thesis
      by (simp split: sum.splits)
  next
    case False
    then show ?thesis
      by (simp add: main_loop_stopped)
  qed
qed

text \<open>
  Typing the byte \<open>b\<close> \<open>k\<close> times at the end of the text, while the guard of the
  insertion lets it in.
\<close>

lemma typing_at_end:
  assumes "buf_inv s" and "running s" and "cursor s = inlen s"
    and "inlen s + int k < int input_max - 1"
  shows "\<exists>s'. main_loop h s (replicate k (KeyPress 97 0 [b])) = Inr s' \<and>
           content s' = content s @ replicate k b \<and>
           cursor s' = inlen s' \<and> inlen s' = inlen s + int k \<and>
           buf_inv s' \<and> running s' \<and> effects s' = effects s"
  using assms
proof (induction k arbitrary: s)
  case 0
  then show ?case by simp
next
  case (Suc k)
  have fits: "inlen s + int (length [b]) < int input_max - 1"
    using Suc.prems(4) by simp
  from on_text_accepts [OF Suc.prems(1) _ fits, of h]
  obtain s1 where s1: "on_text h [b] s = Inr s1"
    "content s1 = take (nat (cursor s)) (content s) @ [b] @ drop (nat (cursor s)) (content s)"
    "cursor s1 = cursor s + int (length [b])" "inlen s1 = inlen s + int (length [b])"
    "buf_inv s1" "running s1 = running s" "effects s1 = effects s"
    by auto
  have txt1: "content s1 = content s @ [b]"
    using s1(2) content_length [OF Suc.prems(1)] Suc.prems(3) by simp
  have "inlen s1 + int k < int input_max - 1" and "cursor s1 = inlen s1" and "running s1"
    using s1 Suc.prems by simp_all
  from Suc.IH [OF s1(5) this(3,2,1)]
  obtain s' where s': "main_loop h s1 (replicate k (KeyPress 97 0 [b])) = Inr s'"
    "content s' = content s1 @ replicate k b" "cursor s' = inlen s'"
    "inlen s' = inlen s1 + int k" "buf_inv s'" "running s'" "effects s' = effects s1"
    by blast
  have loop: "main_loop h s (replicate (Suc k) (KeyPress 97 0 [b])) = Inr s'"
    using Suc.prems(2) s1(1) s'(1) by (simp add: key_press_letter_a)
  have new_text: "content s' = content s @ replicate (Suc k) b"
    using s'(2) txt1 by simp
  have new_len: "inlen s' = inlen s + int (Suc k)"
    using s'(4) s1(4) by simp
  have same_effects: "effects s' = effects s"
    using s'(7) s1(7) by simp
  show ?case
    using loop new_text s'(3) new_len s'(5,6) same_effects
    by (intro exI [of _ s'] conjI)
qed

section \<open>Effects of a session\<close>

lemma session_view_Inr:
  "session_view (Inr s) = Inr (content s, inlen s, effects s, running s)"
  by (simp add: session_view_def)

lemma redraw_fields:
  "running (redraw h s) = running s" "effects (redraw h s) = effects s"
  "focused (redraw h s) = focused s"
  by (simp_all add: redraw_def)

lemma on_return_stops:
  assumes "on_return h s = Inr s'"
  shows "\<not> running s'"
  using assms by (auto simp: on_return_def split: if_splits sum.splits)

lemma on_backspace_effects:
  assumes "on_backspace h s = Inr s'"
  shows "effects s' = effects s"
  using assms by (auto simp: on_backspace_def redraw_def split: if_splits sum.splits)

lemma on_ctrl_u_effects:
  assumes "on_ctrl_u h s = Inr s'"
  shows "effects s' = effects s"
  using assms by (auto simp: on_ctrl_u_def redraw_def split: sum.splits)

lemma on_text_effects:
  assumes "on_text h buf s = Inr s'"
  shows "effects s' = effects s"
  using assms by (auto simp: on_text_def redraw_def Let_def split: if_splits sum.splits)

text \<open>A pass of the loop after which the session still runs has confirmed nothing.\<close>

lemma key_press_running_output:
  assumes "key_press h key st buf s = Inr s'" and "running s'"
  shows "filter is_output (effects s') = filter is_output (effects s)"
proof -
  consider "key = XK_Escape"
    | "key \<noteq> XK_Escape" "key = XK_Return \<or> key = XK_KP_Enter"
    | "key \<noteq> XK_Escape" "\<not> (key = XK_Return \<or> key = XK_KP_Enter)"
    by blast
  then show ?thesis
  proof cases
    case 1
    with assms show ?thesis by (auto simp: key_press_def)
  next
    case 2
    with assms(1) have "on_return h s = Inr s'"
      by (simp add: key_press_def)
    with assms(2) show ?thesis
      using on_return_stops by blast
  next
    case 3
    with assms(1) have "effects s' = effects s"
      using on_backspace_effects [of h s s'] on_ctrl_u_effects [of h s s']
        on_text_effects [of h buf s s']
      by (auto simp: key_press_def on_left_def on_right_def on_home_def on_end_def
          redraw_fields split: if_splits)
    then show ?thesis by simp
  qed
qed

lemma handle_event_running_output:
  assumes "handle_event h ev s = Inr s'" and "running s'"
  shows "filter is_output (effects s') = filter is_output (effects s)"
proof (cases ev)
  case Expose
  with assms show ?thesis
    by (auto simp: redraw_fields Let_def)
next
  case (KeyPress key st buf)
  with assms key_press_running_output show ?thesis
    by simp
qed (use assms in \<open>auto split: if_splits\<close>)

lemma main_loop_running_output:
  assumes "main_loop h s evs = Inr s'" and "running s'"
  shows "filter is_output (effects s') = filter is_output (effects s)"
  using assms
proof (induction evs arbitrary: s)
  case Nil
  then show ?case by simp
next
  case (Cons ev evs)
  show ?case
  proof (cases "running s")
    case False
    with Cons.prems show ?thesis by simp
  next
    case True
    with Cons.prems(1) obtain s1 where s1: "handle_event h ev s = Inr s1"
      "main_loop h s1 evs = Inr s'"
      by (auto split: sum.splits)
    have "running s1"
    proof (rule ccontr)
      assume "\<not> running s1"
      then have "main_loop h s1 evs = Inr s1"
        by (rule main_loop_stopped)
      with s1(2) Cons.prems(2) \<open>\<not> running s1\<close> show False by simp
    qed
    with s1 Cons.IH [OF s1(2) Cons.prems(2)] handle_event_running_output [OF s1(1)]
    show ?thesis by simp
  qed
qed

lemma parse_color_no_output: "filter is_output (fst (parse_color x c)) = []"
  by (simp add: parse_color_def split: option.splits)

lemma startup_no_output:
  assumes "startup x = Inr (bg, border, s0)"
  shows "filter is_output (effects s0) = []" and "running s0" and "buf_inv s0"
proof -
  from assms have s0: "s0 = init_launcher (stack x)
      (fst (parse_color x bg_color) @ fst (parse_color x fg_color))"
    by (auto simp: startup_def Let_def split: if_splits prod.splits)
  show "filter is_output (effects s0) = []"
    by (simp add: s0 init_launcher_def parse_color_no_output)
  show "running s0"
    by (simp add: s0 init_launcher_def)
  show "buf_inv s0"
    unfolding s0 by (rule init_launcher_inv)
qed

section \<open>The example hosts and states\<close>

lemma content_line_state: "content (line_state txt c sx) = txt"
  by (simp add: content_def line_state_def)

lemma line_state_inv:
  assumes "length txt < input_max" and "0 \<le> c" and "c \<le> int (length txt)"
  shows "buf_inv (line_state txt c sx)"
  using assms by (simp add: buf_inv_def line_state_def nth_append)

lemma startup_good_server:
  "startup good_server = Inr (7, 7, init_launcher (stack good_server) [])"
  by (simp add: startup_def good_server_def parse_color_def)

lemma init_launcher_fields:
  "cursor (init_launcher mem effs) = 0" "inlen (init_launcher mem effs) = 0"
  "running (init_launcher mem effs)" "effects (init_launcher mem effs) = effs"
  "content (init_launcher mem effs) = []"
  by (simp_all add: init_launcher_def content_def)

lemma avail_w_value: "avail_w = 580"
  by (simp add: avail_w_def win_width_def)

section \<open>The line buffer\<close>

text \<open>
  C1. Inserting the non-empty bytes \<open>buf\<close> at the cursor of a buffer that satisfies the
  invariant: when \<open>length + len(buf) \<ge> capacity - 1\<close> nothing changes at all; otherwise
  the call succeeds, the new text is the old text with \<open>buf\<close> put in at the cursor (the
  tail moved right), cursor and length grow by \<open>len(buf)\<close>, the invariant (with the
  terminator at the new length) holds again, the scroll offset is the one \<open>draw\<close>
  returns for the new buffer, and nothing else changes.
\<close>

theorem insert_at_cursor:
  assumes "buf_inv s" and "buf \<noteq> []"
  shows "(int input_max - 1 \<le> inlen s + int (length buf) \<longrightarrow> on_text h buf s = Inr s) \<and>
         (inlen s + int (length buf) < int input_max - 1 \<longrightarrow>
            (\<exists>s'. on_text h buf s = Inr s' \<and>
               content s' =
                 take (nat (cursor s)) (content s) @ buf @ drop (nat (cursor s)) (content s) \<and>
               cursor s' = cursor s + int (length buf) \<and>
               inlen s' = inlen s + int (length buf) \<and>
               input s' ! nat (inlen s') = 0 \<and>
               buf_inv s' \<and>
               scroll_x s' = draw h True (input s') (cursor s') (inlen s') (scroll_x s) \<and>
               running s' = running s \<and> focused s' = focused s \<and> effects s' = effects s))"
  using on_text_rejects [of s buf h] on_text_accepts [OF assms, of h]
  by blast

theorem insert_at_cursor_witness:
  "buf_inv (line_state [104, 101, 108, 108, 111] 2 0) \<and>
   (\<exists>s'. on_text fixed_font [88, 89] (line_state [104, 101, 108, 108, 111] 2 0) = Inr s' \<and>
      content s' = [104, 101, 88, 89, 108, 108, 111] \<and> cursor s' = 4 \<and> inlen s' = 7 \<and>
      buf_inv s') \<and>
   buf_inv (line_state (replicate 253 97) 253 0) \<and>
   on_text fixed_font [88, 89] (line_state (replicate 253 97) 253 0) =
     Inr (line_state (replicate 253 97) 253 0)"
proof -
  let ?s = "line_state [104, 101, 108, 108, 111] 2 0"
  let ?t = "line_state (replicate 253 97) 253 0"
  have inv_s: "buf_inv ?s" and inv_t: "buf_inv ?t"
    by (rule line_state_inv; simp add: input_max_def)+
  have ne: "[88, 89] \<noteq> ([] :: byte list)"
    by simp
  have len_s: "inlen ?s + int (length [88, 89 :: byte]) < int input_max - 1"
    and cur_s: "cursor ?s = 2" "inlen ?s = 5"
    by (simp_all add: line_state_def input_max_def)
  have len_t: "int input_max - 1 \<le> inlen ?t + int (length [88, 89 :: byte])"
    by (simp add: line_state_def input_max_def)
  from insert_at_cursor [OF inv_s ne, of fixed_font] len_s
  obtain s' where "on_text fixed_font [88, 89] ?s = Inr s'"
    "content s' = take (nat (cursor ?s)) (content ?s) @ [88, 89] @ drop (nat (cursor ?s)) (content ?s)"
    "cursor s' = cursor ?s + int (length [88, 89 :: byte])"
    "inlen s' = inlen ?s + int (length [88, 89 :: byte])" "buf_inv s'"
    by blast
  then have "\<exists>s'. on_text fixed_font [88, 89] ?s = Inr s' \<and>
      content s' = [104, 101, 88, 89, 108, 108, 111] \<and> cursor s' = 4 \<and> inlen s' = 7 \<and>
      buf_inv s'"
    by (simp add: content_line_state cur_s)
  moreover from insert_at_cursor [OF inv_t ne, of fixed_font] len_t
  have "on_text fixed_font [88, 89] ?t = Inr ?t"
    by blast
  ultimately show ?thesis
    using inv_s inv_t by blast
qed

text \<open>
  C2 (as the claim states it, refuted). A session in which the byte \<open>a\<close> is typed 254
  times holds 254 bytes and is still running. One more byte would make the length
  \<open>255 = capacity - 1\<close>: typing \<open>b\<close> then leaves text and length as they are.
\<close>

theorem capacity_boundary_counterexample:
  "session_view (main good_server fixed_font (replicate 254 (KeyPress 97 0 [97]))) =
     Inr (replicate 254 97, 254, [], True) \<and>
   254 + int (length [98 :: byte]) = int input_max - 1 \<and>
   session_view
     (main good_server fixed_font (replicate 254 (KeyPress 97 0 [97]) @ [KeyPress 98 0 [98]])) =
     Inr (replicate 254 97, 254, [], True)"
proof -
  let ?s0 = "init_launcher (stack good_server) []"
  have "inlen ?s0 + int 254 < int input_max - 1"
    by (simp add: init_launcher_fields input_max_def)
  from typing_at_end [OF init_launcher_inv _ _ this, of fixed_font 97]
  obtain s where s: "main_loop fixed_font ?s0 (replicate 254 (KeyPress 97 0 [97])) = Inr s"
    "content s = replicate 254 97" "inlen s = 254" "effects s = []" "running s = True"
    by (auto simp: init_launcher_fields)
  have "on_text fixed_font [98] s = Inr s"
    by (rule on_text_rejects) (simp add: s(3) input_max_def)
  then have "handle_event fixed_font (KeyPress 98 0 [98]) s = Inr s"
    using key_press_other [of 98 0 fixed_font "[98]" s]
    by (simp add: XK_Escape_def XK_Return_def XK_KP_Enter_def XK_BackSpace_def
        XK_Left_def XK_Right_def XK_Home_def XK_End_def)
  then have "main_loop fixed_font s [KeyPress 98 0 [98]] = Inr s"
    using s(5) by simp
  then have "main_loop fixed_font ?s0 (replicate 254 (KeyPress 97 0 [97]) @ [KeyPress 98 0 [98]]) =
      Inr s"
    by (simp only: main_loop_append s(1) sum.case)
  then have more: "main good_server fixed_font
      (replicate 254 (KeyPress 97 0 [97]) @ [KeyPress 98 0 [98]]) = Inr s"
    by (simp only: main_def startup_good_server sum.case prod.case)
  have full: "main good_server fixed_font (replicate 254 (KeyPress 97 0 [97])) = Inr s"
    by (simp only: main_def startup_good_server sum.case prod.case s(1))
  have sum: "254 + int (length [98 :: byte]) = int input_max - 1"
    by (simp add: input_max_def)
  have view: "session_view (Inr s) = Inr (replicate 254 97, 254, [], True)"
    by (simp only: session_view_Inr s(2-5))
  show ?thesis
    unfolding more full by (intro conjI view sum)
qed

text \<open>
  C2 (amended). The boundary lies one byte lower: an insertion of non-empty bytes with
  \<open>length + insertedLen = capacity - 2\<close> succeeds (the text grows to that length, and
  the invariant holds), while one with \<open>length + insertedLen \<ge> capacity - 1\<close>, so
  also \<open>capacity\<close> or more, is rejected with no change of the state.
\<close>

theorem capacity_boundary:
  assumes "buf_inv s" and "buf \<noteq> []"
  shows "(inlen s + int (length buf) = int input_max - 2 \<longrightarrow>
            (\<exists>s'. on_text h buf s = Inr s' \<and>
               inlen s' = int input_max - 2 \<and>
               cursor s' = cursor s + int (length buf) \<and>
               content s' =
                 take (nat (cursor s)) (content s) @ buf @ drop (nat (cursor s)) (content s) \<and>
               buf_inv s')) \<and>
         (int input_max - 1 \<le> inlen s + int (length buf) \<longrightarrow> on_text h buf s = Inr s)"
proof (intro conjI impI)
  assume "int input_max - 1 \<le> inlen s + int (length buf)"
  then show "on_text h buf s = Inr s"
    by (rule on_text_rejects)
next
  assume eq: "inlen s + int (length buf) = int input_max - 2"
  then have "inlen s + int (length buf) < int input_max - 1"
    by simp
  from on_text_accepts [OF assms this, of h] eq
  show "\<exists>s'. on_text h buf s = Inr s' \<and>
               inlen s' = int input_max - 2 \<and>
               cursor s' = cursor s + int (length buf) \<and>
               content s' =
                 take (nat (cursor s)) (content s) @ buf @ drop (nat (cursor s)) (content s) \<and>
               buf_inv s'"
    by auto
qed

theorem capacity_boundary_witness:
  "buf_inv (line_state (replicate 253 97) 0 0) \<and>
   (\<exists>s'. on_text fixed_font [98] (line_state (replicate 253 97) 0 0) = Inr s' \<and>
      inlen s' = 254 \<and> cursor s' = 1 \<and> content s' = 98 # replicate 253 97 \<and> buf_inv s') \<and>
   buf_inv (line_state (replicate 253 97) 0 0) \<and>
   on_text fixed_font [98, 99, 100] (line_state (replicate 253 97) 0 0) =
     Inr (line_state (replicate 253 97) 0 0)"
proof -
  let ?s = "line_state (replicate 253 97) 0 0"
  have inv: "buf_inv ?s"
    by (rule line_state_inv; simp add: input_max_def)
  have at: "inlen ?s + int (length [98 :: byte]) = int input_max - 2"
    and over: "int input_max - 1 \<le> inlen ?s + int (length [98, 99, 100 :: byte])"
    and cur: "cursor ?s = 0"
    by (simp_all add: line_state_def input_max_def)
  from capacity_boundary [OF inv, of "[98]" fixed_font] at
  obtain s' where "on_text fixed_font [98] ?s = Inr s'" "inlen s' = int input_max - 2"
    "cursor s' = cursor ?s + int (length [98 :: byte])"
    "content s' = take (nat (cursor ?s)) (content ?s) @ [98] @ drop (nat (cursor ?s)) (content ?s)"
    "buf_inv s'"
    by blast
  then have "\<exists>s'. on_text fixed_font [98] ?s = Inr s' \<and>
      inlen s' = 254 \<and> cursor s' = 1 \<and> content s' = 98 # replicate 253 97 \<and> buf_inv s'"
    by (simp add: content_line_state cur input_max_def)
  moreover from capacity_boundary [OF inv, of "[98, 99, 100]" fixed_font] over
  have "on_text fixed_font [98, 99, 100] ?s = Inr ?s"
    by simp
  ultimately show ?thesis
    using inv by blast
qed

text \<open>
  C6. Backspace on a buffer that satisfies the invariant: with the cursor at 0 nothing
  changes; with the cursor after position 0 the call succeeds, exactly the byte at
  \<open>cursor - 1\<close> is gone from the text, the terminator has moved left with the tail,
  and cursor and length are one less.
\<close>

theorem delete_backward:
  assumes "buf_inv s"
  shows "(cursor s = 0 \<longrightarrow> on_backspace h s = Inr s) \<and>
         (0 < cursor s \<longrightarrow>
            (\<exists>s'. on_backspace h s = Inr s' \<and>
               content s' = take (nat (cursor s) - 1) (content s) @ drop (nat (cursor s)) (content s) \<and>
               cursor s' = cursor s - 1 \<and>
               inlen s' = inlen s - 1 \<and>
               input s' ! nat (inlen s') = 0 \<and>
               buf_inv s' \<and>
               scroll_x s' = draw h True (input s') (cursor s') (inlen s') (scroll_x s) \<and>
               running s' = running s \<and> focused s' = focused s \<and> effects s' = effects s))"
proof (intro conjI impI)
  assume "cursor s = 0"
  then show "on_backspace h s = Inr s"
    by (rule on_backspace_at_start)
next
  assume after: "0 < cursor s"
  from assms obtain c n where cn: "cursor s = int c" "inlen s = int n" "c \<le> n"
    "n < input_max" "length (input s) = input_max" "input s ! n = 0"
    by (rule buf_inv_nat)
  have pos: "0 < c" and lt: "n < length (input s)"
    using after cn by simp_all
  let ?a = "take (c - 1) (input s) @ take (n - c + 1) (drop c (input s)) @ drop n (input s)"
  let ?s' = "redraw h (s\<lparr>input := ?a, cursor := cursor s - 1, inlen := inlen s - 1\<rparr>)"
  have res: "on_backspace h s = Inr ?s'"
    using on_backspace_deletes [OF assms after, of h] by (simp add: cn)
  have nat_len: "nat (inlen s - 1) = n - 1"
    by (simp add: cn)
  have "content ?s' = take (n - 1) ?a"
    by (simp add: content_def redraw_def nat_len)
  also have "\<dots> = take (c - 1) (take n (input s)) @ drop c (take n (input s))"
    by (rule deleted_array_props(2) [OF pos cn(3) lt cn(6)])
  finally have new_text: "content ?s' =
      take (nat (cursor s) - 1) (content s) @ drop (nat (cursor s)) (content s)"
    by (simp add: content_def cn)
  have nul: "input ?s' ! nat (inlen ?s') = 0"
    using deleted_array_props(3) [OF pos cn(3) lt cn(6)] by (simp add: redraw_def nat_len)
  from on_backspace_inv [OF assms, of h] res have inv: "buf_inv ?s'"
    by simp
  have rest: "cursor ?s' = cursor s - 1" "inlen ?s' = inlen s - 1"
    "scroll_x ?s' = draw h True (input ?s') (cursor ?s') (inlen ?s') (scroll_x s)"
    "running ?s' = running s" "focused ?s' = focused s" "effects ?s' = effects s"
    by (simp_all add: redraw_def)
  show "\<exists>s'. on_backspace h s = Inr s' \<and>
               content s' = take (nat (cursor s) - 1) (content s) @ drop (nat (cursor s)) (content s) \<and>
               cursor s' = cursor s - 1 \<and>
               inlen s' = inlen s - 1 \<and>
               input s' ! nat (inlen s') = 0 \<and>
               buf_inv s' \<and>
               scroll_x s' = draw h True (input s') (cursor s') (inlen s') (scroll_x s) \<and>
               running s' = running s \<and> focused s' = focused s \<and> effects s' = effects s"
    using res new_text nul inv rest by blast
qed

theorem delete_backward_witness:
  "buf_inv (line_state [104, 101, 108, 108, 111] 0 0) \<and>
   on_backspace fixed_font (line_state [104, 101, 108, 108, 111] 0 0) =
     Inr (line_state [104, 101, 108, 108, 111] 0 0) \<and>
   buf_inv (line_state [104, 101, 108, 108, 111] 2 0) \<and>
   (\<exists>s'. on_backspace fixed_font (line_state [104, 101, 108, 108, 111] 2 0) = Inr s' \<and>
      content s' = [104, 108, 108, 111] \<and> cursor s' = 1 \<and> inlen s' = 4 \<and> buf_inv s')"
proof -
  let ?s = "line_state [104, 101, 108, 108, 111] 0 0"
  let ?t = "line_state [104, 101, 108, 108, 111] 2 0"
  have inv_s: "buf_inv ?s" and inv_t: "buf_inv ?t"
    by (rule line_state_inv; simp add: input_max_def)+
  have cur_s: "cursor ?s = 0" and cur_t: "cursor ?t = 2" "inlen ?t = 5" "0 < cursor ?t"
    by (simp_all add: line_state_def)
  from delete_backward [OF inv_s, of fixed_font] cur_s
  have "on_backspace fixed_font ?s = Inr ?s"
    by blast
  moreover from delete_backward [OF inv_t, of fixed_font] cur_t(3)
  obtain s' where "on_backspace fixed_font ?t = Inr s'"
    "content s' = take (nat (cursor ?t) - 1) (content ?t) @ drop (nat (cursor ?t)) (content ?t)"
    "cursor s' = cursor ?t - 1" "inlen s' = inlen ?t - 1" "buf_inv s'"
    by blast
  then have "\<exists>s'. on_backspace fixed_font ?t = Inr s' \<and>
      content s' = [104, 108, 108, 111] \<and> cursor s' = 1 \<and> inlen s' = 4 \<and> buf_inv s'"
    by (simp add: content_line_state cur_t)
  ultimately show ?thesis
    using inv_s inv_t by blast
qed

section \<open>The scroll offset\<close>

text \<open>
  C3. For an incoming offset that is not negative and widths with
  \<open>0 \<le> cursorExtent \<le> totalExtent\<close>, the offset \<open>draw\<close> returns is the one the
  three-step policy of the specification gives, with the available width being the
  window width minus the padding on both sides.
\<close>

theorem draw_refines_spec_recompute:
  assumes "0 \<le> sx"
    and "0 \<le> ext_cursor_xOff h a c"
    and "ext_cursor_xOff h a c \<le> text_w h a n"
  shows "draw h True a c n sx =
           spec_recompute sx (ext_cursor_xOff h a c) (text_w h a n)
             (int win_width - 2 * padding)"
  using assms
  by (simp add: draw_def adjust_scroll_def spec_recompute_def clamp_def avail_w_def padding_def
      Let_def)

theorem draw_refines_spec_recompute_witness:
  "(0 :: int) \<le> 0 \<and>
   0 \<le> ext_cursor_xOff fixed_font (replicate 256 97) 70 \<and>
   ext_cursor_xOff fixed_font (replicate 256 97) 70 \<le> text_w fixed_font (replicate 256 97) 80 \<and>
   draw fixed_font True (replicate 256 97) 70 80 0 = spec_recompute 0 700 800 580 \<and>
   spec_recompute 0 700 800 580 = 120"
proof -
  have ext: "ext_cursor_xOff fixed_font (replicate 256 97) 70 = 700"
    and tw: "text_w fixed_font (replicate 256 97) 80 = 800"
    by (simp_all add: ext_cursor_xOff_def text_w_def fixed_font_def)
  have h: "(0 :: int) \<le> 0" "0 \<le> ext_cursor_xOff fixed_font (replicate 256 97) 70"
    "ext_cursor_xOff fixed_font (replicate 256 97) 70 \<le> text_w fixed_font (replicate 256 97) 80"
    by (simp_all add: ext tw)
  have "spec_recompute 0 700 800 580 = 120"
    by (simp add: spec_recompute_def clamp_def)
  with draw_refines_spec_recompute [OF h] h show ?thesis
    by (simp add: ext tw win_width_def padding_def)
qed

text \<open>
  C4 (as the claim states it, refuted). A text of 10 bytes, 100 pixels wide and so
  narrower than the available 580, the cursor at its end, and an incoming offset of 50:
  the offset stays 50; it does not become 0.
\<close>

theorem scroll_invariant_counterexample:
  "(0 :: int) \<le> 50 \<and>
   ext_cursor_xOff fixed_font (replicate 256 97) 10 = 100 \<and>
   text_w fixed_font (replicate 256 97) 10 = 100 \<and>
   text_w fixed_font (replicate 256 97) 10 < avail_w \<and>
   draw fixed_font True (replicate 256 97) 10 10 50 = 50"
  by (simp add: draw_def adjust_scroll_def ext_cursor_xOff_def text_w_def fixed_font_def
      avail_w_value)

text \<open>
  C4 (amended). For an incoming offset that is not negative and widths with
  \<open>0 \<le> cursorExtent \<le> totalExtent\<close>, after \<open>draw\<close> the distance
  \<open>cursorExtent - scrollOffset\<close> lies in \<open>[0, availableWidth]\<close>, whatever the total
  width; and when \<open>totalExtent < availableWidth\<close> the new offset is the smaller of the
  incoming offset and \<open>cursorExtent\<close>, so it is 0 when the incoming offset is 0.
\<close>

theorem scroll_invariant:
  assumes "0 \<le> sx"
    and "0 \<le> ext_cursor_xOff h a c"
    and "ext_cursor_xOff h a c \<le> text_w h a n"
  shows "0 \<le> ext_cursor_xOff h a c - draw h True a c n sx \<and>
         ext_cursor_xOff h a c - draw h True a c n sx \<le> avail_w \<and>
         (text_w h a n < avail_w \<longrightarrow>
            draw h True a c n sx = min sx (ext_cursor_xOff h a c) \<and>
            (sx = 0 \<longrightarrow> draw h True a c n sx = 0))"
  using assms
  by (simp add: draw_def adjust_scroll_def avail_w_value Let_def)

theorem scroll_invariant_witness:
  "(0 :: int) \<le> 0 \<and>
   0 \<le> ext_cursor_xOff fixed_font (replicate 256 97) 10 \<and>
   ext_cursor_xOff fixed_font (replicate 256 97) 10 \<le> text_w fixed_font (replicate 256 97) 20 \<and>
   text_w fixed_font (replicate 256 97) 20 < avail_w \<and>
   draw fixed_font True (replicate 256 97) 10 20 0 = 0 \<and>
   0 \<le> ext_cursor_xOff fixed_font (replicate 256 97) 10 -
          draw fixed_font True (replicate 256 97) 10 20 0 \<and>
   ext_cursor_xOff fixed_font (replicate 256 97) 10 -
     draw fixed_font True (replicate 256 97) 10 20 0 \<le> avail_w"
proof -
  have ext: "ext_cursor_xOff fixed_font (replicate 256 97) 10 = 100"
    and tw: "text_w fixed_font (replicate 256 97) 20 = 200"
    by (simp_all add: ext_cursor_xOff_def text_w_def fixed_font_def)
  have h: "(0 :: int) \<le> 0" "0 \<le> ext_cursor_xOff fixed_font (replicate 256 97) 10"
    "ext_cursor_xOff fixed_font (replicate 256 97) 10 \<le> text_w fixed_font (replicate 256 97) 20"
    by (simp_all add: ext tw)
  have narrow: "text_w fixed_font (replicate 256 97) 20 < avail_w"
    by (simp add: tw avail_w_value)
  from scroll_invariant [OF h] narrow h show ?thesis
    by simp
qed

section \<open>The event loop\<close>

text \<open>
  C5. From a state that satisfies the buffer invariant (array of the declared size,
  \<open>0 \<le> cursor \<le> length < capacity\<close>, terminator at index \<open>length\<close>), every single event
  is handled without leaving the array and gives a state that satisfies it again, and so
  does every sequence of events run through the loop, whatever its length; Left and
  Right key presses are among them.
\<close>

theorem buffer_invariant_preserved:
  assumes "buf_inv s"
  shows "(\<exists>s'. handle_event h ev s = Inr s' \<and> buf_inv s') \<and>
         (\<exists>s'. main_loop h s evs = Inr s' \<and> buf_inv s' \<and>
                0 \<le> cursor s' \<and> cursor s' \<le> inlen s' \<and> inlen s' < int input_max \<and>
                input s' ! nat (inlen s') = 0)"
proof -
  from main_loop_inv [OF assms, of h evs] obtain s' where
    "main_loop h s evs = Inr s'" "buf_inv s'"
    by blast
  then have "\<exists>s'. main_loop h s evs = Inr s' \<and> buf_inv s' \<and>
                0 \<le> cursor s' \<and> cursor s' \<le> inlen s' \<and> inlen s' < int input_max \<and>
                input s' ! nat (inlen s') = 0"
    by (auto simp: buf_inv_def)
  with handle_event_inv [OF assms, of h ev] show ?thesis
    by blast
qed

theorem buffer_invariant_preserved_witness:
  "buf_inv (line_state [104, 105] 1 0) \<and>
   (\<exists>s'. handle_event fixed_font (KeyPress XK_Left 0 []) (line_state [104, 105] 1 0) = Inr s' \<and>
      buf_inv s') \<and>
   (\<exists>s'. main_loop fixed_font (line_state [104, 105] 1 0)
            [KeyPress XK_Left 0 [], KeyPress XK_Left 0 [], KeyPress XK_Left 0 [],
             KeyPress XK_Right 0 [], KeyPress XK_Right 0 [], KeyPress XK_Right 0 [],
             KeyPress 120 0 [120], KeyPress XK_BackSpace 0 [8], Expose] = Inr s' \<and>
      buf_inv s' \<and> 0 \<le> cursor s' \<and> cursor s' \<le> inlen s')"
proof -
  have inv: "buf_inv (line_state [104, 105] 1 0)"
    by (rule line_state_inv; simp add: input_max_def)
  from buffer_invariant_preserved [OF inv] inv show ?thesis
    by blast
qed

text \<open>
  Return or keypad Enter on a buffer that satisfies the invariant and holds no NUL
  byte: with an empty buffer the session ends and nothing else changes (no output, no
  child); with a non-empty one the loop first writes exactly the text of the buffer
  and a newline to standard output and flushes it, then calls \<open>run_command\<close> on that
  same text (a child running the text when \<^verbatim>\<open>fork\<close> succeeds, a warning otherwise),
  and the session ends.
\<close>

lemma enter_confirms_without_nul:
  assumes "buf_inv s" and "key = XK_Return \<or> key = XK_KP_Enter"
  shows "(inlen s = 0 \<longrightarrow>
            handle_event h (KeyPress key st buf) s = Inr (s\<lparr>running := False\<rparr>)) \<and>
         (0 < inlen s \<and> 0 \<notin> set (content s) \<longrightarrow>
            handle_event h (KeyPress key st buf) s =
              Inr (s\<lparr>effects := effects s @ [Stdout (content s @ [10]), Flush] @
                                 run_command h (content s),
                     running := False\<rparr>) \<and>
            run_command h (content s) =
              (if fork_ok h then [Spawn (content s)] else [Warn ''fork'']))"
proof (intro conjI impI)
  assume "inlen s = 0"
  then show "handle_event h (KeyPress key st buf) s = Inr (s\<lparr>running := False\<rparr>)"
    using assms(2) by (simp only: key_press_return on_return_empty)
next
  assume ne: "0 < inlen s \<and> 0 \<notin> set (content s)"
  then have all: "takeWhile (\<lambda>b. b \<noteq> 0) (content s) = content s"
    by auto
  from ne assms(1) have "on_return h s =
      Inr (s\<lparr>effects := effects s @ [Stdout (content s @ [10]), Flush] @
                         run_command h (content s),
             running := False\<rparr>)"
    using on_return_nonempty [of s h] by (simp only: all)
  then show "handle_event h (KeyPress key st buf) s =
      Inr (s\<lparr>effects := effects s @ [Stdout (content s @ [10]), Flush] @
                         run_command h (content s),
             running := False\<rparr>)"
    using assms(2) by (simp only: key_press_return)
next
  assume ne: "0 < inlen s \<and> 0 \<notin> set (content s)"
  then have "content s \<noteq> []"
    using assms(1) by (auto simp: content_def buf_inv_def)
  then show "run_command h (content s) =
      (if fork_ok h then [Spawn (content s)] else [Warn ''fork''])"
    by (simp add: run_command_def)
qed

lemma enter_confirms_without_nul_example:
  "buf_inv (line_state [] 0 0) \<and>
   handle_event fixed_font (KeyPress XK_Return 0 [13]) (line_state [] 0 0) =
     Inr ((line_state [] 0 0)\<lparr>running := False\<rparr>) \<and>
   buf_inv (line_state [108, 115] 2 0) \<and>
   handle_event fixed_font (KeyPress XK_KP_Enter 0 [13]) (line_state [108, 115] 2 0) =
     Inr ((line_state [108, 115] 2 0)
            \<lparr>effects := [Stdout [108, 115, 10], Flush, Spawn [108, 115]], running := False\<rparr>)"
proof -
  let ?e = "line_state [] 0 0"
  let ?s = "line_state [108, 115] 2 0"
  have inv_e: "buf_inv ?e" and inv_s: "buf_inv ?s"
    by (rule line_state_inv; simp add: input_max_def)+
  have key_e: "XK_Return = XK_Return \<or> XK_Return = XK_KP_Enter"
    and key_s: "XK_KP_Enter = XK_Return \<or> XK_KP_Enter = XK_KP_Enter"
    by simp_all
  have len_e: "inlen ?e = 0"
    by (simp add: line_state_def)
  have "0 < inlen ?s"
    by (simp add: line_state_def)
  moreover have "0 \<notin> set (content ?s)"
    by (simp add: content_line_state)
  ultimately have len_s: "0 < inlen ?s \<and> 0 \<notin> set (content ?s)" ..
  have eff: "effects ?s = []" and ok: "fork_ok fixed_font"
    by (simp_all add: line_state_def fixed_font_def)
  note empty_case = enter_confirms_without_nul [OF inv_e key_e, where h = fixed_font and st = 0
      and buf = "[13]", THEN conjunct1, THEN mp, OF len_e]
  note text_case = enter_confirms_without_nul [OF inv_s key_s, where h = fixed_font and st = 0
      and buf = "[13]", THEN conjunct2, THEN mp, OF len_s]
  have "handle_event fixed_font (KeyPress XK_KP_Enter 0 [13]) ?s =
      Inr (?s\<lparr>effects := [Stdout [108, 115, 10], Flush, Spawn [108, 115]], running := False\<rparr>)"
    using text_case by (simp only: content_line_state eff ok if_True append_Nil append_Cons)
  with empty_case inv_e inv_s show ?thesis
    by (intro conjI)
qed

text \<open>
  C7. On Return with an empty buffer the session ends with nothing printed and nothing
  run; with a non-empty buffer exactly the buffer's text is to be written as one line
  to standard output, and then \<open>run_command\<close> called with that same text, before the
  session ends. The loop decides on \<^verbatim>\<open>inlen > 0\<close> and terminates the text at
  \<^verbatim>\<open>input[inlen]\<close>, so it means all \<^verbatim>\<open>inlen\<close> bytes, as \<open>draw\<close> does; but
  \<^verbatim>\<open>printf("%s")\<close> and \<open>run_command\<close> read a C string, which ends at the first NUL
  byte, and the insertion stores the bytes of \<^verbatim>\<open>XLookupString\<close> as they come. The code
  at the input where this shows: a session on a server where everything succeeds,
  Ctrl-Space (for which \<^verbatim>\<open>XLookupString\<close> gives the single byte NUL) and then Return.
  At the end the buffer holds one byte, so it was not empty; what has reached standard
  output is an empty line and no child was started, which is not the line and the
  call that the text of the buffer asks for.
\<close>

theorem enter_with_nul_in_buffer:
  "session_view
     (main good_server fixed_font [KeyPress 32 ControlMask [0], KeyPress XK_Return 0 [13]]) =
   Inr ([0], 1, [Stdout [10], Flush], False) \<and>
   [Stdout [10], Flush] \<noteq> [Stdout ([0] @ [10]), Flush] @ run_command fixed_font [0]"
proof -
  let ?s0 = "init_launcher (stack good_server) []"
  have inv0: "buf_inv ?s0"
    by (rule init_launcher_inv)
  have "handle_event fixed_font (KeyPress 32 ControlMask [0]) ?s0 = on_text fixed_font [0] ?s0"
    by (simp add: key_press_def XK_Escape_def XK_Return_def XK_KP_Enter_def XK_BackSpace_def
        XK_Left_def XK_Right_def XK_Home_def XK_End_def XK_u_def)
  moreover from on_text_accepts [OF inv0, of "[0]" fixed_font]
  obtain s1 where s1: "on_text fixed_font [0] ?s0 = Inr s1" "content s1 = [0]" "inlen s1 = 1"
    "buf_inv s1" "running s1" "effects s1 = []"
    by (auto simp: init_launcher_fields input_max_def)
  ultimately have step1: "handle_event fixed_font (KeyPress 32 ControlMask [0]) ?s0 = Inr s1"
    by simp
  let ?s2 = "s1\<lparr>effects := [Stdout [10], Flush], running := False\<rparr>"
  have "on_return fixed_font s1 = Inr ?s2"
    using on_return_nonempty [OF s1(4), of fixed_font] s1 by (simp add: run_command_def)
  then have step2: "handle_event fixed_font (KeyPress XK_Return 0 [13]) s1 = Inr ?s2"
    using key_press_return [of XK_Return fixed_font 0 "[13]" s1] by simp
  have "main_loop fixed_font ?s0 [KeyPress 32 ControlMask [0], KeyPress XK_Return 0 [13]] =
      Inr ?s2"
    using step1 step2 s1(5) by (simp add: init_launcher_fields)
  moreover have "content ?s2 = [0]" "inlen ?s2 = 1"
    using s1(2,3) by (simp_all add: content_def)
  ultimately have "session_view
      (main good_server fixed_font [KeyPress 32 ControlMask [0], KeyPress XK_Return 0 [13]]) =
      Inr ([0], 1, [Stdout [10], Flush], False)"
    by (simp add: main_def startup_good_server session_view_def)
  moreover have "[Stdout [10], Flush] \<noteq>
      [Stdout ([0] @ [10]), Flush] @ run_command fixed_font [0]"
    by (simp add: run_command_def)
  ultimately show ?thesis ..
qed

text \<open>
  C8. Escape in any state ends the session and changes nothing else, whatever the
  buffer holds. And over a whole session: when the session is still running after the
  events \<open>evs\<close>, an Escape key press delivered next ends it in that state, later events
  are not looked at, and the effects of the whole session hold no printed line, no flush,
  no child and no warning about \<^verbatim>\<open>fork\<close>: \<open>run_command\<close> was never called.
\<close>

theorem escape_cancels:
  "handle_event h (KeyPress XK_Escape st buf) t = Inr (t\<lparr>running := False\<rparr>) \<and>
   (main x h evs = Inr s \<and> running s \<longrightarrow>
      main x h (evs @ KeyPress XK_Escape st buf # rest) = Inr (s\<lparr>running := False\<rparr>) \<and>
      filter is_output (effects (s\<lparr>running := False\<rparr>)) = [])"
proof (intro conjI impI)
  show esc: "handle_event h (KeyPress XK_Escape st buf) t = Inr (t\<lparr>running := False\<rparr>)" for t
    by (simp add: key_press_def)
  assume run: "main x h evs = Inr s \<and> running s"
  then obtain bg border s0 where s0: "startup x = Inr (bg, border, s0)"
    "main_loop h s0 evs = Inr s"
    by (auto simp: main_def split: sum.splits)
  have "main_loop h s0 (evs @ KeyPress XK_Escape st buf # rest) =
      main_loop h s (KeyPress XK_Escape st buf # rest)"
    by (simp add: main_loop_append s0(2))
  also have "\<dots> = main_loop h (s\<lparr>running := False\<rparr>) rest"
    using run esc [of s] by simp
  also have "\<dots> = Inr (s\<lparr>running := False\<rparr>)"
    by (rule main_loop_stopped) simp
  finally show "main x h (evs @ KeyPress XK_Escape st buf # rest) = Inr (s\<lparr>running := False\<rparr>)"
    by (simp add: main_def s0(1))
  have "filter is_output (effects s) = filter is_output (effects s0)"
    using main_loop_running_output [OF s0(2)] run by simp
  then show "filter is_output (effects (s\<lparr>running := False\<rparr>)) = []"
    using startup_no_output(1) [OF s0(1)] by simp
qed

theorem escape_cancels_witness:
  "main good_server fixed_font [Expose, FocusOut] =
     Inr ((init_launcher (stack good_server) [SetInputFocus])\<lparr>focused := True\<rparr>) \<and>
   running ((init_launcher (stack good_server) [SetInputFocus])\<lparr>focused := True\<rparr>) \<and>
   main good_server fixed_font
     ([Expose, FocusOut] @ KeyPress XK_Escape 0 [27] # [KeyPress XK_Return 0 [13]]) =
     Inr ((init_launcher (stack good_server) [SetInputFocus])\<lparr>focused := True, running := False\<rparr>) \<and>
   filter is_output
     (effects ((init_launcher (stack good_server) [SetInputFocus])\<lparr>focused := True, running := False\<rparr>)) = []"
proof -
  let ?s = "(init_launcher (stack good_server) [SetInputFocus])\<lparr>focused := True\<rparr>"
  have "redraw fixed_font ((init_launcher (stack good_server) [])\<lparr>effects := [SetInputFocus], focused := True\<rparr>) = ?s"
    by (simp add: redraw_def draw_def adjust_scroll_def ext_cursor_xOff_def text_w_def
        init_launcher_def avail_w_def win_width_def)
  then have reach: "main good_server fixed_font [Expose, FocusOut] = Inr ?s \<and> running ?s"
    by (simp add: main_def startup_good_server init_launcher_fields Let_def)
       (simp add: init_launcher_def)
  from escape_cancels [where x = good_server and h = fixed_font and evs = "[Expose, FocusOut]"
      and s = ?s and st = 0 and buf = "[27]" and rest = "[KeyPress XK_Return 0 [13]]",
      THEN conjunct2, THEN mp, OF reach] reach
  show ?thesis
    by simp
qed

text \<open>
  C10. A FocusOut event changes nothing: the state after it is the state before it
  (buffer, length, cursor, scroll offset, the running flag, the effects), and a
  session with a FocusOut in front goes on exactly as the session without it.
\<close>

theorem focus_out_ignored:
  "handle_event h FocusOut s = Inr s \<and>
   main_loop h s (FocusOut # evs) = main_loop h s evs"
  by (simp add: main_loop_stopped)

section \<open>Session start\<close>

text \<open>
  C9 (as the claim states it, refuted). A server on which the display opens, the font
  loads and the drawing surface can be created, but \<^verbatim>\<open>XftColorAllocName\<close> cannot
  allocate the foreground colour: start-up ends in \<^verbatim>\<open>errx\<close>.
\<close>

theorem startup_color_failures_counterexample:
  "open_display no_xft_color_server \<and>
   font_open no_xft_color_server font_name \<and>
   xft_draw_create no_xft_color_server \<and>
   x_parse_color no_xft_color_server fg_color \<noteq> None \<and>
   startup no_xft_color_server = Inl (Errx ''cannot allocate xft color: #cdd6f4'')"
  by (simp add: startup_def no_xft_color_server_def good_server_def parse_color_def fg_color_def)

text \<open>
  C9 (amended). Start-up succeeds exactly when the display opens, \<^verbatim>\<open>pledge\<close> does not
  fail, the font loads, \<^verbatim>\<open>XftColorAllocName\<close> allocates the foreground colour and the
  drawing surface is created: what \<^verbatim>\<open>XParseColor\<close> and \<^verbatim>\<open>XAllocColor\<close> answer for the
  two configured colours plays no part in it. When start-up succeeds, background and
  border are the pixels \<open>parse_color\<close> returns, its warnings have been printed, and the
  session is running. \<open>parse_color\<close> returns the allocated pixel without a warning when
  both requests succeed, and the black pixel with one warning when either fails.
\<close>

theorem startup_color_failures:
  "((\<exists>bg border init. startup x = Inr (bg, border, init)) \<longleftrightarrow>
      open_display x \<and> \<not> pledge_fails x \<and> font_open x font_name \<and>
      xft_color_alloc x fg_color \<and> xft_draw_create x) \<and>
   (startup x = Inr (bg, border, init) \<longrightarrow>
      bg = snd (parse_color x bg_color) \<and> border = snd (parse_color x fg_color) \<and>
      effects init = fst (parse_color x bg_color) @ fst (parse_color x fg_color) \<and>
      running init) \<and>
   parse_color x c =
     (case Option.bind (x_parse_color x c) (x_alloc_color x) of
        Some pixel \<Rightarrow> ([], pixel)
      | None \<Rightarrow>
          ([Warn ((if x_parse_color x c = None then ''invalid color: ''
                   else ''cannot allocate color: '') @ c)],
           black_pixel x))"
proof -
  have fatal: "(\<exists>bg border init. startup x = Inr (bg, border, init)) \<longleftrightarrow>
      open_display x \<and> \<not> pledge_fails x \<and> font_open x font_name \<and>
      xft_color_alloc x fg_color \<and> xft_draw_create x"
    by (auto simp: startup_def Let_def split: prod.splits)
  have colors: "startup x = Inr (bg, border, init) \<longrightarrow>
      bg = snd (parse_color x bg_color) \<and> border = snd (parse_color x fg_color) \<and>
      effects init = fst (parse_color x bg_color) @ fst (parse_color x fg_color) \<and>
      running init"
  proof
    assume "startup x = Inr (bg, border, init)"
    then have "bg = snd (parse_color x bg_color)" "border = snd (parse_color x fg_color)"
      "init = init_launcher (stack x)
         (fst (parse_color x bg_color) @ fst (parse_color x fg_color))"
      by (auto simp: startup_def Let_def split: if_splits prod.splits)
    then show "bg = snd (parse_color x bg_color) \<and> border = snd (parse_color x fg_color) \<and>
        effects init = fst (parse_color x bg_color) @ fst (parse_color x fg_color) \<and>
        running init"
      by (simp add: init_launcher_fields)
  qed
  have degrade: "parse_color x c =
     (case Option.bind (x_parse_color x c) (x_alloc_color x) of
        Some pixel \<Rightarrow> ([], pixel)
      | None \<Rightarrow>
          ([Warn ((if x_parse_color x c = None then ''invalid color: ''
                   else ''cannot allocate color: '') @ c)],
           black_pixel x))"
    by (cases "x_parse_color x c") (simp_all add: parse_color_def split: option.splits)
  show ?thesis
    by (rule conjI [OF fatal conjI [OF colors degrade]])
qed

theorem startup_color_failures_witness:
  "startup no_color_server =
     Inr (black_pixel no_color_server, black_pixel no_color_server,
          init_launcher (stack no_color_server)
            [Warn ''invalid color: #1e1e2e'', Warn ''invalid color: #cdd6f4'']) \<and>
   snd (parse_color no_color_server bg_color) = black_pixel no_color_server \<and>
   snd (parse_color no_color_server fg_color) = black_pixel no_color_server \<and>
   effects (init_launcher (stack no_color_server)
              [Warn ''invalid color: #1e1e2e'', Warn ''invalid color: #cdd6f4'']) =
     [Warn ''invalid color: #1e1e2e'', Warn ''invalid color: #cdd6f4''] \<and>
   running (init_launcher (stack no_color_server)
              [Warn ''invalid color: #1e1e2e'', Warn ''invalid color: #cdd6f4''])"
proof -
  let ?x = "no_color_server"
  let ?init = "init_launcher (stack no_color_server)
      [Warn ''invalid color: #1e1e2e'', Warn ''invalid color: #cdd6f4'']"
  have ok: "startup ?x = Inr (black_pixel ?x, black_pixel ?x, ?init)"
    by (simp add: startup_def no_color_server_def good_server_def parse_color_def bg_color_def
        fg_color_def)
  have warn: "fst (parse_color ?x bg_color) @ fst (parse_color ?x fg_color) =
      [Warn ''invalid color: #1e1e2e'', Warn ''invalid color: #cdd6f4'']"
    by (simp add: no_color_server_def good_server_def parse_color_def bg_color_def fg_color_def)
  from startup_color_failures [where x = ?x and bg = "black_pixel ?x"
      and border = "black_pixel ?x" and init = ?init,
      THEN conjunct2, THEN conjunct1, THEN mp, OF ok] ok warn
  show ?thesis
    by simp
qed

end
